theory Spec2Isabelle
  imports Main
begin

section \<open>Text: characters, case, whitespace\<close>

text \<open>
  A Python \<open>str\<close> is modelled as a HOL string, a list of characters with the code
  points U+0000 to U+00FF. The tables below are those of Python 3 on this range: the
  characters \<open>str.isspace\<close>, \<open>str.strip\<close> and the class \<open>\s\<close> take for whitespace,
  the word characters of the class \<open>\w\<close> and of \<open>\b\<close>, and \<open>str.upper\<close>.
\<close>

text \<open>
  Whitespace: tab, line feed, vertical tab, form feed, carriage return, the four
  separators \<open>0x1C\<close> to \<open>0x1F\<close>, the blank, the next-line control U+0085 and the
  no-break space U+00A0.
\<close>

definition is_space :: "char \<Rightarrow> bool" where
  "is_space c =
     (c \<in> set [CHR 0x09, CHR 0x0A, CHR 0x0B, CHR 0x0C, CHR 0x0D,
                CHR 0x1C, CHR 0x1D, CHR 0x1E, CHR 0x1F, CHR 0x20,
                CHR 0x85, CHR 0xA0])"

text \<open>
  Word characters: the ASCII letters and digits, the underscore, and of the upper half
  the ordinal indicators, the superscript digits, the micro sign, the fractions and
  the letters (U+00D7 and U+00F7, the multiplication and division signs, are none).
\<close>

definition is_word :: "char \<Rightarrow> bool" where
  "is_word c =
     (c \<in> set (''abcdefghijklmnopqrstuvwxyz'' @ ''ABCDEFGHIJKLMNOPQRSTUVWXYZ'' @
               ''0123456789'' @ ''_'' @
               [CHR 0xAA, CHR 0xB2, CHR 0xB3, CHR 0xB5, CHR 0xB9, CHR 0xBA,
                CHR 0xBC, CHR 0xBD, CHR 0xBE,
                CHR 0xC0, CHR 0xC1, CHR 0xC2, CHR 0xC3, CHR 0xC4, CHR 0xC5, CHR 0xC6, CHR 0xC7,
                CHR 0xC8, CHR 0xC9, CHR 0xCA, CHR 0xCB, CHR 0xCC, CHR 0xCD, CHR 0xCE, CHR 0xCF,
                CHR 0xD0, CHR 0xD1, CHR 0xD2, CHR 0xD3, CHR 0xD4, CHR 0xD5, CHR 0xD6,
                CHR 0xD8, CHR 0xD9, CHR 0xDA, CHR 0xDB, CHR 0xDC, CHR 0xDD, CHR 0xDE, CHR 0xDF,
                CHR 0xE0, CHR 0xE1, CHR 0xE2, CHR 0xE3, CHR 0xE4, CHR 0xE5, CHR 0xE6, CHR 0xE7,
                CHR 0xE8, CHR 0xE9, CHR 0xEA, CHR 0xEB, CHR 0xEC, CHR 0xED, CHR 0xEE, CHR 0xEF,
                CHR 0xF0, CHR 0xF1, CHR 0xF2, CHR 0xF3, CHR 0xF4, CHR 0xF5, CHR 0xF6,
                CHR 0xF8, CHR 0xF9, CHR 0xFA, CHR 0xFB, CHR 0xFC, CHR 0xFD, CHR 0xFE, CHR 0xFF]))"

text \<open>
  \<open>str.upper\<close> leaves the range at two characters, and lengthens the text at one: the
  micro sign U+00B5 becomes the Greek capital mu U+039C, the y with diaeresis U+00FF
  becomes U+0178, and the sharp s U+00DF becomes the two letters \<open>SS\<close>. Upper-cased text
  is therefore a list over \<open>uchar\<close>, the characters of the range and the two capitals
  outside it. Both capitals are word characters and no whitespace.
\<close>

datatype uchar = Latin1 char | Capital_Mu | Capital_Y_Diaeresis

definition upper_char :: "char \<Rightarrow> uchar list" where
  "upper_char c =
     (if c = CHR 0xDF then [Latin1 CHR ''S'', Latin1 CHR ''S'']
      else if c = CHR 0xB5 then [Capital_Mu]
      else if c = CHR 0xFF then [Capital_Y_Diaeresis]
      else
        (case map_of
           (zip (''abcdefghijklmnopqrstuvwxyz'' @
                 [CHR 0xE0, CHR 0xE1, CHR 0xE2, CHR 0xE3, CHR 0xE4, CHR 0xE5, CHR 0xE6, CHR 0xE7,
                  CHR 0xE8, CHR 0xE9, CHR 0xEA, CHR 0xEB, CHR 0xEC, CHR 0xED, CHR 0xEE, CHR 0xEF,
                  CHR 0xF0, CHR 0xF1, CHR 0xF2, CHR 0xF3, CHR 0xF4, CHR 0xF5, CHR 0xF6,
                  CHR 0xF8, CHR 0xF9, CHR 0xFA, CHR 0xFB, CHR 0xFC, CHR 0xFD, CHR 0xFE])
                (''ABCDEFGHIJKLMNOPQRSTUVWXYZ'' @
                 [CHR 0xC0, CHR 0xC1, CHR 0xC2, CHR 0xC3, CHR 0xC4, CHR 0xC5, CHR 0xC6, CHR 0xC7,
                  CHR 0xC8, CHR 0xC9, CHR 0xCA, CHR 0xCB, CHR 0xCC, CHR 0xCD, CHR 0xCE, CHR 0xCF,
                  CHR 0xD0, CHR 0xD1, CHR 0xD2, CHR 0xD3, CHR 0xD4, CHR 0xD5, CHR 0xD6,
                  CHR 0xD8, CHR 0xD9, CHR 0xDA, CHR 0xDB, CHR 0xDC, CHR 0xDD, CHR 0xDE])) c of
           Some u \<Rightarrow> [Latin1 u]
         | None \<Rightarrow> [Latin1 c]))"

definition upper :: "string \<Rightarrow> uchar list" where
  "upper s = concat (map upper_char s)"

fun is_space_u :: "uchar \<Rightarrow> bool" where
  "is_space_u (Latin1 c) = is_space c"
| "is_space_u Capital_Mu = False"
| "is_space_u Capital_Y_Diaeresis = False"

fun is_word_u :: "uchar \<Rightarrow> bool" where
  "is_word_u (Latin1 c) = is_word c"
| "is_word_u Capital_Mu = True"
| "is_word_u Capital_Y_Diaeresis = True"

text \<open>A literal of the source, as upper-cased text is compared with it.\<close>

definition latin1 :: "string \<Rightarrow> uchar list" where
  "latin1 s = map Latin1 s"

text \<open>
  Under \<open>re.IGNORECASE\<close> a character of the text matches a character of the pattern when
  their case folds agree. The patterns of the source are ASCII, and against an ASCII
  character the characters of the range agree exactly when they do after the ASCII
  letters are put in upper case, which is \<open>ignorecase_char\<close>.
\<close>

definition ignorecase_char :: "char \<Rightarrow> char" where
  "ignorecase_char c =
     (case map_of (zip ''abcdefghijklmnopqrstuvwxyz'' ''ABCDEFGHIJKLMNOPQRSTUVWXYZ'') c of
        Some u \<Rightarrow> u
      | None \<Rightarrow> c)"

definition ignorecase :: "string \<Rightarrow> string" where
  "ignorecase s = map ignorecase_char s"

text \<open>\<open>strip_with sp s\<close> is \<open>s.strip()\<close>, with \<open>sp\<close> the whitespace of the text.\<close>

definition strip_with :: "('a \<Rightarrow> bool) \<Rightarrow> 'a list \<Rightarrow> 'a list" where
  "strip_with sp s = rev (dropWhile sp (rev (dropWhile sp s)))"

definition strip :: "string \<Rightarrow> string" where
  "strip s = strip_with is_space s"

definition strip_u :: "uchar list \<Rightarrow> uchar list" where
  "strip_u s = strip_with is_space_u s"

definition startswith :: "'a list \<Rightarrow> 'a list \<Rightarrow> bool" where
  "startswith s p = (take (length p) s = p)"

definition endswith :: "'a list \<Rightarrow> 'a list \<Rightarrow> bool" where
  "endswith s p = (length p \<le> length s \<and> drop (length s - length p) s = p)"

text \<open>\<open>contains s sub\<close> is Python's \<open>sub in s\<close>.\<close>

fun contains :: "'a list \<Rightarrow> 'a list \<Rightarrow> bool" where
  "contains [] sub = (sub = [])"
| "contains (c # cs) sub = (startswith (c # cs) sub \<or> contains cs sub)"

text \<open>\<open>count s c\<close> is \<open>s.count(c)\<close> for a one-character \<open>c\<close>.\<close>

definition count :: "'a list \<Rightarrow> 'a \<Rightarrow> nat" where
  "count s c = length (filter (\<lambda>x. x = c) s)"

section \<open>The regular expressions of the source\<close>

text \<open>
  The patterns handed to \<open>re.sub\<close> and \<open>re.search\<close> are sequences of one-character
  atoms, each taken once or under a greedy or lazy repetition, and the assertion \<open>\b\<close>.
  \<open>rx_match\<close> is the backtracking matcher anchored at the current position: it follows
  the priorities of \<open>re\<close> (a greedy repetition tries the longer match first, a lazy one
  the shorter) and returns the text left after the match it settles on. The character
  before the current position is carried along for \<open>\b\<close>. The matcher runs on text
  and on upper-cased text alike; \<open>Bnd wd\<close> is the assertion \<open>\b\<close> with \<open>wd\<close> the word
  characters of the text it runs on.
\<close>

datatype quant = Once | StarG | PlusG | StarL | PlusL

datatype 'a item = Atom "'a \<Rightarrow> bool" quant | Bnd "'a \<Rightarrow> bool"

definition holds_opt :: "('a \<Rightarrow> bool) \<Rightarrow> 'a option \<Rightarrow> bool" where
  "holds_opt wd p = (case p of None \<Rightarrow> False | Some c \<Rightarrow> wd c)"

definition next_char :: "'a list \<Rightarrow> 'a option" where
  "next_char s = (case s of [] \<Rightarrow> None | c # _ \<Rightarrow> Some c)"

definition boundary :: "('a \<Rightarrow> bool) \<Rightarrow> 'a option \<Rightarrow> 'a list \<Rightarrow> bool" where
  "boundary wd prev s = (holds_opt wd prev \<noteq> holds_opt wd (next_char s))"

function rx_match :: "'a item list \<Rightarrow> 'a option \<Rightarrow> 'a list \<Rightarrow> 'a list option" where
  "rx_match [] prev s = Some s"
| "rx_match (Bnd wd # its) prev s = (if boundary wd prev s then rx_match its prev s else None)"
| "rx_match (Atom p Once # its) prev [] = None"
| "rx_match (Atom p Once # its) prev (c # cs) =
     (if p c then rx_match its (Some c) cs else None)"
| "rx_match (Atom p PlusG # its) prev [] = None"
| "rx_match (Atom p PlusG # its) prev (c # cs) =
     (if p c then rx_match (Atom p StarG # its) (Some c) cs else None)"
| "rx_match (Atom p PlusL # its) prev [] = None"
| "rx_match (Atom p PlusL # its) prev (c # cs) =
     (if p c then rx_match (Atom p StarL # its) (Some c) cs else None)"
| "rx_match (Atom p StarG # its) prev [] = rx_match its prev []"
| "rx_match (Atom p StarG # its) prev (c # cs) =
     (if p c
      then (case rx_match (Atom p StarG # its) (Some c) cs of
              Some r \<Rightarrow> Some r
            | None \<Rightarrow> rx_match its prev (c # cs))
      else rx_match its prev (c # cs))"
| "rx_match (Atom p StarL # its) prev [] = rx_match its prev []"
| "rx_match (Atom p StarL # its) prev (c # cs) =
     (case rx_match its prev (c # cs) of
        Some r \<Rightarrow> Some r
      | None \<Rightarrow> if p c then rx_match (Atom p StarL # its) (Some c) cs else None)"
  by pat_completeness auto
termination
  by (relation "measure (\<lambda>(its, prev, s). length its + length s)") auto

text \<open>
  \<open>re.search\<close>: the first position, from the left, at which the pattern matches; the
  result is the matched text (group 0, which is also group 1 of the one pattern the
  source reads a group from).
\<close>

fun rx_search :: "'a item list \<Rightarrow> 'a option \<Rightarrow> 'a list \<Rightarrow> 'a list option" where
  "rx_search its prev [] =
     (case rx_match its prev [] of Some r \<Rightarrow> Some [] | None \<Rightarrow> None)"
| "rx_search its prev (c # cs) =
     (case rx_match its prev (c # cs) of
        Some r \<Rightarrow> Some (take (length (c # cs) - length r) (c # cs))
      | None \<Rightarrow> rx_search its (Some c) cs)"

text \<open>
  \<open>re.sub(pattern, '', s)\<close>: every match, taken from the left without overlap, is
  deleted. A match of no characters deletes nothing and the scan moves on by one
  character.
\<close>

fun rx_sub :: "'a item list \<Rightarrow> 'a option \<Rightarrow> 'a list \<Rightarrow> 'a list" where
  "rx_sub its prev [] = []"
| "rx_sub its prev (c # cs) =
     (case rx_match its prev (c # cs) of
        None \<Rightarrow> c # rx_sub its (Some c) cs
      | Some r \<Rightarrow>
          if length r < length (c # cs)
          then rx_sub its (Some (last (take (length (c # cs) - length r) (c # cs)))) r
          else c # rx_sub its (Some c) cs)"

text \<open>A pattern without \<open>\b\<close>.\<close>

fun no_bnd :: "'a item list \<Rightarrow> bool" where
  "no_bnd [] = True"
| "no_bnd (Atom p q # its) = no_bnd its"
| "no_bnd (Bnd wd # its) = False"

definition lit :: "'a \<Rightarrow> 'a item" where
  "lit c = Atom (\<lambda>x. x = c) Once"

definition lit_ci :: "char \<Rightarrow> char item" where
  "lit_ci c = Atom (\<lambda>x. ignorecase_char x = ignorecase_char c) Once"

text \<open>\<open>lits_ci w\<close> is \<open>re.escape(w)\<close> compiled with \<open>re.IGNORECASE\<close>.\<close>

definition lits :: "'a list \<Rightarrow> 'a item list" where
  "lits w = map lit w"

definition lits_ci :: "string \<Rightarrow> char item list" where
  "lits_ci w = map lit_ci w"

section \<open>The sanitizer: \<open>AIService.clean_sql_response\<close>\<close>

definition fence_sql :: "char item list" where
  "fence_sql = lits_ci ''```sql'' @ [Atom is_space StarG]"

definition fence_mysql :: "char item list" where
  "fence_mysql = lits_ci ''```mysql'' @ [Atom is_space StarG]"

definition fence_bare :: "char item list" where
  "fence_bare = lits ''```'' @ [Atom is_space StarG]"

definition prefixes_to_remove :: "string list" where
  "prefixes_to_remove =
     [''Here'' @ [CHR 0x27] @ ''s the query:'',
      ''Here is the query:'',
      ''The SQL query is:'',
      ''SQL Query:'',
      ''Query:'']"

text \<open>The pattern \<open>(SELECT\s+.+?;)\<close> under \<open>re.IGNORECASE | re.DOTALL\<close>.\<close>

definition select_pat :: "char item list" where
  "select_pat =
     lits_ci ''SELECT'' @ [Atom is_space PlusG, Atom (\<lambda>x. True) PlusL, lit (CHR '';'')]"

definition remove_fences :: "string \<Rightarrow> string" where
  "remove_fences sql =
     rx_sub fence_bare None (rx_sub fence_mysql None (rx_sub fence_sql None sql))"

definition remove_prefixes :: "string \<Rightarrow> string" where
  "remove_prefixes sql = foldl (\<lambda>s prefix. rx_sub (lits_ci prefix) None s) sql prefixes_to_remove"

definition extract_select :: "string \<Rightarrow> string" where
  "extract_select sql = (case rx_search select_pat None sql of Some m \<Rightarrow> m | None \<Rightarrow> sql)"

definition ensure_semicolon :: "string \<Rightarrow> string" where
  "ensure_semicolon sql = (if sql \<noteq> [] \<and> \<not> endswith sql '';'' then sql @ '';'' else sql)"

definition clean_sql_response :: "string \<Rightarrow> string" where
  "clean_sql_response sql =
     ensure_semicolon (extract_select (strip (remove_prefixes (remove_fences sql))))"

section \<open>The validators\<close>
section \<open>The validators\<close>

subsection \<open>Strict read-only: \<open>AIService.validate_sql\<close>\<close>

definition FORBIDDEN_KEYWORDS :: "string list" where
  "FORBIDDEN_KEYWORDS =
     [''INSERT'', ''UPDATE'', ''DELETE'', ''DROP'', ''CREATE'', ''ALTER'',
      ''TRUNCATE'', ''GRANT'', ''REVOKE'', ''EXECUTE'', ''EXEC'',
      ''MERGE'', ''CALL'', ''LOAD'', ''REPLACE'', ''LOCK'', ''UNLOCK'']"

text \<open>
  The pattern \<open>r'\b' + keyword + r'\b'\<close>, and whether \<open>re.search\<close> finds it in the
  upper-cased text.
\<close>

definition keyword_pat :: "string \<Rightarrow> uchar item list" where
  "keyword_pat keyword = [Bnd is_word_u] @ lits (latin1 keyword) @ [Bnd is_word_u]"

definition keyword_found :: "string \<Rightarrow> uchar list \<Rightarrow> bool" where
  "keyword_found keyword s = (rx_search (keyword_pat keyword) None s \<noteq> None)"

definition validate_sql :: "string \<Rightarrow> bool \<times> string" where
  "validate_sql sql =
     (if sql = [] then (False, ''Empty SQL query'')
      else if startswith (upper sql) (latin1 ''ERROR:'') then (False, sql)
      else
        let sql_upper = upper sql in
        if \<not> startswith (strip_u sql_upper) (latin1 ''SELECT'')
        then (False, ''Only SELECT queries are allowed'')
        else
          (case find (\<lambda>keyword. keyword_found keyword sql_upper) FORBIDDEN_KEYWORDS of
             Some keyword \<Rightarrow> (False, ''Forbidden operation detected: '' @ keyword)
           | None \<Rightarrow>
               if count sql (CHR '';'') > 1
               then (False, ''Multiple SQL statements not allowed'')
               else if contains sql ''--'' \<or> contains sql ''/*''
               then (False, ''SQL comments not allowed'')
               else (True, ''SQL query is valid'')))"

subsection \<open>Restricted mutation: the guards of \<open>execute_manual_query\<close>\<close>

text \<open>
  The endpoint answers with an error (status 400) or hands the trimmed statement to
  \<open>execute_manual_sql\<close>, the execution collaborator. \<open>Rejected\<close> carries the error
  text, \<open>Forwarded\<close> the statement that is handed on.
\<close>

datatype manual_outcome = Rejected string | Forwarded string

definition dangerous_keywords :: "string list" where
  "dangerous_keywords = [''DROP'', ''TRUNCATE'', ''GRANT'', ''REVOKE'', ''ALTER'', ''CREATE'']"

definition execute_manual_query :: "string \<Rightarrow> manual_outcome" where
  "execute_manual_query sql =
     (if sql = [] then Rejected ''No SQL query provided''
      else
        let sql_query = strip sql in
        if sql_query = [] then Rejected ''Empty SQL query''
        else
          let sql_upper = upper sql_query in
          (case find (\<lambda>keyword. keyword_found keyword sql_upper) dangerous_keywords of
             Some keyword \<Rightarrow>
               Rejected (''Dangerous operation detected: '' @ keyword @
                         ''. Only SELECT, INSERT, UPDATE, DELETE are allowed.'')
           | None \<Rightarrow>
               if count sql_query (CHR '';'') > 1
               then Rejected ''Multiple SQL statements not allowed''
               else Forwarded sql_query))"

section \<open>The orchestrator: \<open>AIService.generate_sql\<close>\<close>

text \<open>
  The two provider calls go out to the network; they are the fields \<open>call_openai\<close> and
  \<open>call_gemini\<close> of the service, functions of the prompt, the schema description and
  the state \<open>'w\<close> of the world outside, which they return changed together with their
  pair \<open>(success, text)\<close>. The sanitizer and the validator are pure.
\<close>

record 'w ai_service =
  provider :: string
  call_openai :: "string \<Rightarrow> string \<Rightarrow> 'w \<Rightarrow> (bool \<times> string) \<times> 'w"
  call_gemini :: "string \<Rightarrow> string \<Rightarrow> 'w \<Rightarrow> (bool \<times> string) \<times> 'w"

definition call_provider ::
  "'w ai_service \<Rightarrow> string \<Rightarrow> string \<Rightarrow> 'w \<Rightarrow> (bool \<times> string) \<times> 'w" where
  "call_provider self prompt schema_context w =
     (if provider self = ''openai''
      then call_openai self prompt schema_context w
      else call_gemini self prompt schema_context w)"

definition generate_sql ::
  "'w ai_service \<Rightarrow> string \<Rightarrow> string \<Rightarrow> 'w \<Rightarrow> (bool \<times> string \<times> string) \<times> 'w" where
  "generate_sql self prompt schema_context w =
     (if prompt = [] \<or> strip prompt = [] then ((False, [], ''Empty prompt provided''), w)
      else
        (case call_provider self prompt schema_context w of
           ((success, result), w') \<Rightarrow>
             if \<not> success then ((False, [], result), w')
             else
               let sql = clean_sql_response result in
               (case validate_sql sql of
                  (is_valid, validation_message) \<Rightarrow>
                    if \<not> is_valid then ((False, sql, validation_message), w')
                    else ((True, sql, ''SQL generated and validated successfully''), w'))))"

text \<open>A provider for experiments: the world is the number of calls made so far.\<close>

definition counting_service :: "bool \<times> string \<Rightarrow> nat ai_service" where
  "counting_service answer =
     \<lparr>provider = ''gemini'',
      call_openai = (\<lambda>prompt schema_context n. (answer, Suc n)),
      call_gemini = (\<lambda>prompt schema_context n. (answer, Suc n))\<rparr>"

section \<open>Notions the claims are stated with\<close>




text \<open>The guards of \<open>validate_sql\<close> that come before the keyword scan let \<open>sql\<close> through.\<close>

definition passes_leading_guards :: "string \<Rightarrow> bool" where
  "passes_leading_guards sql =
     (sql \<noteq> [] \<and> \<not> startswith (upper sql) (latin1 ''ERROR:'') \<and>
      startswith (strip_u (upper sql)) (latin1 ''SELECT''))"

definition no_forbidden_word :: "string \<Rightarrow> bool" where
  "no_forbidden_word sql = (\<forall>k \<in> set FORBIDDEN_KEYWORDS. \<not> keyword_found k (upper sql))"

definition no_dangerous_word :: "string \<Rightarrow> bool" where
  "no_dangerous_word sql = (\<forall>k \<in> set dangerous_keywords. \<not> keyword_found k (upper (strip sql)))"

definition has_comment_marker :: "string \<Rightarrow> bool" where
  "has_comment_marker sql = (contains sql ''--'' \<or> contains sql ''/*'')"

text \<open>Blank text: empty or whitespace only.\<close>

definition blank :: "string \<Rightarrow> bool" where
  "blank s = (\<forall>c \<in> set s. is_space c)"

text \<open>
  A fence marker occurs in \<open>s\<close>; one of the explanatory prefixes occurs in \<open>s\<close>, in any
  letter case; the sanitizer's fourth step finds a statement in what the first three
  steps leave of \<open>raw\<close>.
\<close>

definition has_fence :: "string \<Rightarrow> bool" where
  "has_fence s = contains s ''```''"

definition has_prefix :: "string \<Rightarrow> bool" where
  "has_prefix s =
     (\<exists>prefix \<in> set prefixes_to_remove. contains (ignorecase s) (ignorecase prefix))"

definition extracted :: "string \<Rightarrow> bool" where
  "extracted raw =
     (rx_search select_pat None (strip (remove_prefixes (remove_fences raw))) \<noteq> None)"

text \<open>
  A settled text is empty, or begins with something other than whitespace and ends
  with a semicolon.
\<close>

definition settled :: "string \<Rightarrow> bool" where
  "settled y = (y = [] \<or> (\<not> is_space (hd y) \<and> endswith y '';''))"

section \<open>Characters\<close>

text \<open>
  The tables, read off the bits of the character. Each is checked against its
  definition at all 256 characters.
\<close>

lemma is_space_bits:
  "\<forall>c. is_space c =
     (case c of Char b0 b1 b2 b3 b4 b5 b6 b7 \<Rightarrow>
        (\<not> b6 \<and>
         (if b7
          then \<not> b4 \<and> \<not> b3 \<and> \<not> b1 \<and> ((b5 \<and> \<not> b2 \<and> \<not> b0) \<or> (\<not> b5 \<and> b2 \<and> b0))
          else (b5 \<and> \<not> b4 \<and> \<not> b3 \<and> \<not> b2 \<and> \<not> b1 \<and> \<not> b0) \<or>
               (\<not> b5 \<and> b4 \<and> b3 \<and> b2) \<or>
               (\<not> b5 \<and> \<not> b4 \<and> b3 \<and> ((\<not> b2 \<and> (b1 \<or> b0)) \<or> (b2 \<and> \<not> b1))))))"
  by code_simp

lemma is_space_Char [code]:
  "is_space (Char b0 b1 b2 b3 b4 b5 b6 b7) =
     (\<not> b6 \<and>
      (if b7
       then \<not> b4 \<and> \<not> b3 \<and> \<not> b1 \<and> ((b5 \<and> \<not> b2 \<and> \<not> b0) \<or> (\<not> b5 \<and> b2 \<and> b0))
       else (b5 \<and> \<not> b4 \<and> \<not> b3 \<and> \<not> b2 \<and> \<not> b1 \<and> \<not> b0) \<or>
            (\<not> b5 \<and> b4 \<and> b3 \<and> b2) \<or>
            (\<not> b5 \<and> \<not> b4 \<and> b3 \<and> ((\<not> b2 \<and> (b1 \<or> b0)) \<or> (b2 \<and> \<not> b1)))))"
  using is_space_bits [rule_format, of "Char b0 b1 b2 b3 b4 b5 b6 b7"]
  by (simp only: char.case)



lemma ignorecase_char_bits:
  "\<forall>c. ignorecase_char c =
     (case c of Char b0 b1 b2 b3 b4 b5 b6 b7 \<Rightarrow>
        (if \<not> b7 \<and> b6 \<and> b5 \<and> (b0 \<or> b1 \<or> b2 \<or> b3 \<or> b4) \<and>
            \<not> (b4 \<and> b3 \<and> (b2 \<or> (b1 \<and> b0)))
         then Char b0 b1 b2 b3 b4 False b6 b7 else Char b0 b1 b2 b3 b4 b5 b6 b7))"
  by code_simp

lemma ignorecase_char_Char [code]:
  "ignorecase_char (Char b0 b1 b2 b3 b4 b5 b6 b7) =
     (if \<not> b7 \<and> b6 \<and> b5 \<and> (b0 \<or> b1 \<or> b2 \<or> b3 \<or> b4) \<and>
         \<not> (b4 \<and> b3 \<and> (b2 \<or> (b1 \<and> b0)))
      then Char b0 b1 b2 b3 b4 False b6 b7 else Char b0 b1 b2 b3 b4 b5 b6 b7)"
  using ignorecase_char_bits [rule_format, of "Char b0 b1 b2 b3 b4 b5 b6 b7"]
  by (simp only: char.case)



lemma is_space_ignorecase_char: "is_space (ignorecase_char c) = is_space c"
proof -
  have "\<forall>c. is_space (ignorecase_char c) = is_space c"
    by code_simp
  then show ?thesis ..
qed


lemma upper_char_not_Nil: "upper_char c \<noteq> []"
proof -
  have "\<forall>c. upper_char c \<noteq> []"
    by code_simp
  then show ?thesis ..
qed

lemma is_space_upper_char: "x \<in> set (upper_char c) \<Longrightarrow> is_space_u x = is_space c"
proof -
  have "\<forall>c. list_all (\<lambda>x. is_space_u x = is_space c) (upper_char c)"
    by code_simp
  then show "x \<in> set (upper_char c) \<Longrightarrow> is_space_u x = is_space c"
    by (simp add: list_all_iff)
qed


section \<open>Strings\<close>

lemma upper_Nil: "upper [] = []"
  by (simp add: upper_def)

lemma upper_Cons: "upper (c # cs) = upper_char c @ upper cs"
  by (simp add: upper_def)


lemma upper_Nil_iff: "upper s = [] \<longleftrightarrow> s = []"
  by (cases s) (simp_all add: upper_def upper_char_not_Nil)

lemma upper_first:
  assumes "upper s = x # t"
  shows "\<exists>c cs. s = c # cs \<and> x \<in> set (upper_char c)"
proof (cases s)
  case Nil
  with assms show ?thesis by (simp add: upper_Nil)
next
  case (Cons c cs)
  with assms have "upper_char c @ upper cs = x # t" by (simp add: upper_Cons)
  then have "x \<in> set (upper_char c)"
    using upper_char_not_Nil [of c] by (cases "upper_char c") auto
  with Cons show ?thesis by blast
qed

lemma strip_with_Nil_iff: "strip_with sp s = [] \<longleftrightarrow> (\<forall>c \<in> set s. sp c)"
proof
  assume "strip_with sp s = []"
  then have "\<forall>x \<in> set (dropWhile sp s). sp x"
    by (simp add: strip_with_def)
  then have "dropWhile sp s = []"
    using hd_dropWhile [of sp s] by (cases "dropWhile sp s") auto
  then show "\<forall>c \<in> set s. sp c"
    by simp
next
  assume "\<forall>c \<in> set s. sp c"
  then show "strip_with sp s = []"
    by (auto simp add: strip_with_def dest: set_dropWhileD)
qed

lemma strip_with_Cons_keep:
  assumes "\<not> sp c"
  shows "\<exists>t. strip_with sp (c # cs) = c # t"
proof -
  have "dropWhile sp (rev cs @ [c]) = dropWhile sp (rev cs) @ [c]
      \<or> dropWhile sp (rev cs @ [c]) = [c]"
    using assms by (simp add: dropWhile_append)
  then have "\<exists>u. dropWhile sp (rev cs @ [c]) = u @ [c]"
    by auto
  then obtain u where "dropWhile sp (rev cs @ [c]) = u @ [c]" ..
  then have "strip_with sp (c # cs) = c # rev u"
    using assms by (simp add: strip_with_def)
  then show ?thesis ..
qed

lemma strip_Nil_iff: "strip s = [] \<longleftrightarrow> (\<forall>c \<in> set s. is_space c)"
  by (simp add: strip_def strip_with_Nil_iff)

lemma strip_Cons_keep: "\<not> is_space c \<Longrightarrow> \<exists>t. strip (c # cs) = c # t"
  by (simp add: strip_def strip_with_Cons_keep)

lemma strip_u_Cons_keep: "\<not> is_space_u c \<Longrightarrow> \<exists>t. strip_u (c # cs) = c # t"
  by (simp add: strip_u_def strip_with_Cons_keep)

lemma startswith_Nil: "startswith s []"
  by (simp add: startswith_def)

lemma startswith_Cons: "startswith s (c # p) \<longleftrightarrow> (\<exists>t. s = c # t \<and> startswith t p)"
  by (cases s) (auto simp add: startswith_def)

lemma contains_set: "contains s sub \<Longrightarrow> set sub \<subseteq> set s"
proof (induction s)
  case Nil
  then show ?case by simp
next
  case (Cons c cs)
  from Cons.prems have "startswith (c # cs) sub \<or> contains cs sub" by simp
  then show ?case
  proof
    assume "startswith (c # cs) sub"
    then have "take (length sub) (c # cs) = sub" by (simp add: startswith_def)
    then have "set sub \<subseteq> set (c # cs)" by (metis set_take_subset)
    then show ?thesis .
  next
    assume "contains cs sub"
    with Cons.IH show ?thesis by auto
  qed
qed

section \<open>The guards of the validators\<close>

lemma count_dropWhile_space:
  "\<not> is_space c \<Longrightarrow> count (dropWhile is_space s) c = count s c"
  by (induction s) (auto simp add: count_def)

lemma count_rev: "count (rev s) c = count s c"
  by (simp add: count_def flip: rev_filter)

lemma count_strip: "\<not> is_space c \<Longrightarrow> count (strip s) c = count s c"
  by (simp add: strip_def strip_with_def count_rev count_dropWhile_space)

lemma semicolon_not_space: "\<not> is_space (CHR '';'')"
  by (simp add: is_space_Char)

lemma count_positive_nonempty: "0 < count s c \<Longrightarrow> s \<noteq> []"
  by (auto simp add: count_def)

lemma count_positive_strip:
  assumes "0 < count s c" and "\<not> is_space c"
  shows "strip s \<noteq> []"
proof -
  from assms have "0 < count (strip s) c" by (simp add: count_strip)
  then show ?thesis by (rule count_positive_nonempty)
qed

lemma select_not_error:
  assumes "startswith (strip_u (upper sql)) (latin1 ''SELECT'')"
  shows "\<not> startswith (upper sql) (latin1 ''ERROR:'')"
proof
  assume "startswith (upper sql) (latin1 ''ERROR:'')"
  then obtain t where "upper sql = Latin1 CHR ''E'' # t"
    by (auto simp add: latin1_def startswith_Cons)
  moreover have "\<not> is_space_u (Latin1 CHR ''E'')" by (simp add: is_space_Char)
  ultimately obtain t' where "strip_u (upper sql) = Latin1 CHR ''E'' # t'"
    using strip_u_Cons_keep by fastforce
  with assms show False by (simp add: latin1_def startswith_Cons)
qed

lemma select_nonempty:
  assumes "startswith (strip_u (upper sql)) (latin1 ''SELECT'')"
  shows "sql \<noteq> []"
proof
  assume "sql = []"
  then have "strip_u (upper sql) = []" by (simp add: upper_def strip_u_def strip_with_def)
  with assms show False by (simp add: startswith_def latin1_def)
qed

lemma passes_leading_guards_iff:
  "passes_leading_guards sql \<longleftrightarrow> startswith (strip_u (upper sql)) (latin1 ''SELECT'')"
  using select_not_error select_nonempty by (auto simp add: passes_leading_guards_def)

lemma find_forbidden_None:
  "find (\<lambda>keyword. keyword_found keyword (upper sql)) FORBIDDEN_KEYWORDS = None
     \<longleftrightarrow> no_forbidden_word sql"
  by (auto simp add: find_None_iff no_forbidden_word_def)

lemma find_dangerous_None:
  "find (\<lambda>keyword. keyword_found keyword (upper (strip sql))) dangerous_keywords = None
     \<longleftrightarrow> no_dangerous_word sql"
  by (auto simp add: find_None_iff no_dangerous_word_def)

lemma validate_sql_leading:
  assumes "startswith (strip_u (upper sql)) (latin1 ''SELECT'')"
  shows "validate_sql sql =
     (case find (\<lambda>keyword. keyword_found keyword (upper sql)) FORBIDDEN_KEYWORDS of
        Some keyword \<Rightarrow> (False, ''Forbidden operation detected: '' @ keyword)
      | None \<Rightarrow>
          if count sql (CHR '';'') > 1 then (False, ''Multiple SQL statements not allowed'')
          else if has_comment_marker sql then (False, ''SQL comments not allowed'')
          else (True, ''SQL query is valid''))"
  using assms select_not_error [OF assms] select_nonempty [OF assms]
  by (simp add: validate_sql_def Let_def has_comment_marker_def)

lemma validate_sql_scan_clean:
  assumes "startswith (strip_u (upper sql)) (latin1 ''SELECT'')" and "no_forbidden_word sql"
  shows "validate_sql sql =
     (if count sql (CHR '';'') > 1 then (False, ''Multiple SQL statements not allowed'')
      else if has_comment_marker sql then (False, ''SQL comments not allowed'')
      else (True, ''SQL query is valid''))"
proof -
  from assms(2)
  have "find (\<lambda>keyword. keyword_found keyword (upper sql)) FORBIDDEN_KEYWORDS = None"
    by (simp add: find_forbidden_None)
  then show ?thesis by (simp add: validate_sql_leading [OF assms(1)])
qed

lemma validate_sql_valid_iff:
  "fst (validate_sql sql) \<longleftrightarrow>
     startswith (strip_u (upper sql)) (latin1 ''SELECT'') \<and> no_forbidden_word sql \<and>
     count sql (CHR '';'') \<le> 1 \<and> \<not> has_comment_marker sql"
proof (cases "startswith (strip_u (upper sql)) (latin1 ''SELECT'')")
  case True
  show ?thesis
  proof (cases "no_forbidden_word sql")
    case yes: True
    with True show ?thesis by (auto simp add: validate_sql_scan_clean)
  next
    case False
    then have "find (\<lambda>keyword. keyword_found keyword (upper sql)) FORBIDDEN_KEYWORDS \<noteq> None"
      by (simp add: find_forbidden_None)
    with True False show ?thesis by (auto simp add: validate_sql_leading)
  qed
next
  case False
  then show ?thesis by (simp add: validate_sql_def Let_def)
qed

lemma execute_manual_query_scan_clean:
  assumes "strip sql \<noteq> []" and "no_dangerous_word sql"
  shows "execute_manual_query sql =
     (if count (strip sql) (CHR '';'') > 1 then Rejected ''Multiple SQL statements not allowed''
      else Forwarded (strip sql))"
proof -
  from assms(1) have "sql \<noteq> []" by (auto simp add: strip_def strip_with_def)
  moreover from assms(2)
  have "find (\<lambda>keyword. keyword_found keyword (upper (strip sql))) dangerous_keywords = None"
    by (simp add: find_dangerous_None)
  ultimately show ?thesis using assms(1)
    by (simp add: execute_manual_query_def Let_def)
qed

lemma execute_manual_query_rejects_many:
  assumes "1 < count sql (CHR '';'')"
  shows "\<exists>reason. execute_manual_query sql = Rejected reason"
proof -
  from assms have ne: "strip sql \<noteq> []"
    by (intro count_positive_strip [where c = "CHR '';''"]) (simp_all add: semicolon_not_space)
  then have "sql \<noteq> []" by (auto simp add: strip_def strip_with_def)
  moreover from assms have "1 < count (strip sql) (CHR '';'')"
    by (simp add: count_strip semicolon_not_space)
  ultimately show ?thesis using ne
    by (simp add: execute_manual_query_def Let_def split: option.split)
qed

lemma validate_sql_error:
  assumes "startswith (upper sql) (latin1 ''ERROR:'')"
  shows "validate_sql sql = (False, sql)"
proof -
  from assms have "upper sql \<noteq> []" by (auto simp add: startswith_def latin1_def)
  then have "sql \<noteq> []" by (simp add: upper_Nil_iff)
  with assms show ?thesis by (simp add: validate_sql_def)
qed

lemma contains_strip_nonempty:
  assumes "contains s (c # sub)" and "\<not> is_space c"
  shows "strip s \<noteq> []"
proof -
  from assms(1) have "c \<in> set s" using contains_set by fastforce
  with assms(2) show ?thesis by (auto simp add: strip_Nil_iff)
qed

lemma comment_marker_strip_nonempty:
  assumes "has_comment_marker sql"
  shows "strip sql \<noteq> []"
proof -
  have "\<not> is_space (CHR ''-'')" and "\<not> is_space (CHR ''/'')"
    by (simp_all add: is_space_Char)
  with assms show ?thesis
    using contains_strip_nonempty by (auto simp add: has_comment_marker_def)
qed

lemma error_strip_nonempty:
  assumes "startswith (upper sql) (latin1 ''ERROR:'')"
  shows "strip sql \<noteq> []"
proof -
  from assms obtain t where "upper sql = Latin1 CHR ''E'' # t"
    by (auto simp add: startswith_Cons latin1_def)
  then obtain c cs where sql: "sql = c # cs" and c: "Latin1 CHR ''E'' \<in> set (upper_char c)"
    using upper_first by blast
  have "\<not> is_space_u (Latin1 CHR ''E'')" by (simp add: is_space_Char)
  with c have "\<not> is_space c" using is_space_upper_char by blast
  with sql show ?thesis by (auto simp add: strip_Nil_iff)
qed

text \<open>
  C2, amended. A candidate with more than one semicolon is never accepted: the strict
  validator returns Invalid, with the multiple-statements reason once the leading
  guards and the keyword scan have let it through, and the manual endpoint rejects
  it, with the multiple-statements reason when its own keyword scan finds nothing.
\<close>

theorem multiple_statements_rejected:
  assumes "1 < count sql (CHR '';'')"
  shows "fst (validate_sql sql) = False
    \<and> (passes_leading_guards sql \<and> no_forbidden_word sql \<longrightarrow>
         validate_sql sql = (False, ''Multiple SQL statements not allowed''))
    \<and> (\<exists>reason. execute_manual_query sql = Rejected reason)
    \<and> (no_dangerous_word sql \<longrightarrow>
         execute_manual_query sql = Rejected ''Multiple SQL statements not allowed'')"
proof -
  from assms have strict: "\<not> fst (validate_sql sql)"
    by (simp add: validate_sql_valid_iff)
  from assms have reason: "passes_leading_guards sql \<and> no_forbidden_word sql \<longrightarrow>
      validate_sql sql = (False, ''Multiple SQL statements not allowed'')"
    by (simp add: passes_leading_guards_iff validate_sql_scan_clean)
  from assms have ne: "strip sql \<noteq> []"
    by (intro count_positive_strip [where c = "CHR '';''"]) (simp_all add: semicolon_not_space)
  from assms have many: "1 < count (strip sql) (CHR '';'')"
    by (simp add: count_strip semicolon_not_space)
  from ne many have manual: "no_dangerous_word sql \<longrightarrow>
      execute_manual_query sql = Rejected ''Multiple SQL statements not allowed''"
    by (simp add: execute_manual_query_scan_clean)
  from strict reason manual execute_manual_query_rejects_many [OF assms]
  show ?thesis by simp
qed

theorem multiple_statements_rejected_witness:
  "1 < count ''SELECT 1;;'' (CHR '';'')
   \<and> validate_sql ''SELECT 1;;'' = (False, ''Multiple SQL statements not allowed'')
   \<and> execute_manual_query ''SELECT 1;;'' = Rejected ''Multiple SQL statements not allowed''"
proof -
  have many: "1 < count ''SELECT 1;;'' (CHR '';'')"
    by code_simp
  have guards: "passes_leading_guards ''SELECT 1;;'' \<and> no_forbidden_word ''SELECT 1;;''"
    by code_simp
  have scan: "no_dangerous_word ''SELECT 1;;''"
    by code_simp
  from multiple_statements_rejected [OF many] guards scan many show ?thesis
    by simp
qed

theorem multiple_statements_reason_counterexample:
  "1 < count ''SELECT * FROM employees; DROP TABLE employees;'' (CHR '';'')
   \<and> validate_sql ''SELECT * FROM employees; DROP TABLE employees;''
       = (False, ''Forbidden operation detected: DROP'')"
  by code_simp

text \<open>
  C3. The first token is not checked as the claim says. The manual endpoint looks at
  no leading verb at all: \<open>CALL cleanup()\<close>, whose verb is none of SELECT, INSERT,
  UPDATE and DELETE, is handed to execution, although the endpoint's own error text
  says that only these four are allowed; the strict validator rejects the same text.
  The strict validator in turn tests the first six letters, not the first token:
  \<open>SELECTALL FROM t\<close> is Valid.
\<close>

theorem leading_verb_not_checked:
  "execute_manual_query ''CALL cleanup()'' = Forwarded ''CALL cleanup()''
   \<and> validate_sql ''CALL cleanup()'' = (False, ''Only SELECT queries are allowed'')
   \<and> validate_sql ''SELECTALL FROM t'' = (True, ''SQL query is valid'')"
  by code_simp

text \<open>
  C4, amended. Under the strict policy a candidate with a comment marker is never
  accepted, and the reason given is the comments reason once every earlier guard has
  let it through. The manual endpoint has no guard for comment markers: with no
  dangerous keyword and at most one semicolon the candidate is handed on, trimmed.
\<close>

theorem comment_markers_rejected:
  assumes "has_comment_marker sql"
  shows "fst (validate_sql sql) = False
    \<and> (passes_leading_guards sql \<and> no_forbidden_word sql \<and> count sql (CHR '';'') \<le> 1 \<longrightarrow>
         validate_sql sql = (False, ''SQL comments not allowed''))
    \<and> (no_dangerous_word sql \<and> count sql (CHR '';'') \<le> 1 \<longrightarrow>
         execute_manual_query sql = Forwarded (strip sql))"
proof -
  from assms have strict: "\<not> fst (validate_sql sql)"
    by (simp add: validate_sql_valid_iff)
  from assms have reason: "passes_leading_guards sql \<and> no_forbidden_word sql \<and>
      count sql (CHR '';'') \<le> 1 \<longrightarrow> validate_sql sql = (False, ''SQL comments not allowed'')"
    by (simp add: passes_leading_guards_iff validate_sql_scan_clean)
  have "count (strip sql) (CHR '';'') = count sql (CHR '';'')"
    by (simp add: count_strip semicolon_not_space)
  with comment_marker_strip_nonempty [OF assms]
  have manual: "no_dangerous_word sql \<and> count sql (CHR '';'') \<le> 1 \<longrightarrow>
      execute_manual_query sql = Forwarded (strip sql)"
    by (simp add: execute_manual_query_scan_clean)
  from strict reason manual show ?thesis by simp
qed

theorem comment_markers_rejected_witness:
  "has_comment_marker ''SELECT 1 -- x''
   \<and> validate_sql ''SELECT 1 -- x'' = (False, ''SQL comments not allowed'')
   \<and> execute_manual_query ''SELECT 1 -- x'' = Forwarded (strip ''SELECT 1 -- x'')"
proof -
  have marker: "has_comment_marker ''SELECT 1 -- x''"
    by code_simp
  have strict: "passes_leading_guards ''SELECT 1 -- x'' \<and> no_forbidden_word ''SELECT 1 -- x''
      \<and> count ''SELECT 1 -- x'' (CHR '';'') \<le> 1"
    by code_simp
  have manual: "no_dangerous_word ''SELECT 1 -- x''"
    by code_simp
  from comment_markers_rejected [OF marker] marker strict manual show ?thesis
    by blast
qed

theorem comment_markers_counterexample:
  "has_comment_marker ''SELECT 1 /* x */''
   \<and> execute_manual_query ''SELECT 1 /* x */'' = Forwarded ''SELECT 1 /* x */''
   \<and> has_comment_marker ''SELECT 1; -- ;''
   \<and> validate_sql ''SELECT 1; -- ;'' = (False, ''Multiple SQL statements not allowed'')"
  by code_simp

text \<open>
  C5, amended. The strict validator returns Invalid, with the candidate itself as
  the reason, for every candidate whose upper-cased text begins with \<open>ERROR:\<close>. The
  manual endpoint has no sentinel guard: such a candidate, when it has no dangerous
  keyword and at most one semicolon, is handed on, trimmed.
\<close>

theorem sentinel_passed_through:
  assumes "startswith (upper sql) (latin1 ''ERROR:'')"
  shows "validate_sql sql = (False, sql)
    \<and> (no_dangerous_word sql \<and> count sql (CHR '';'') \<le> 1 \<longrightarrow>
         execute_manual_query sql = Forwarded (strip sql))"
proof -
  have "count (strip sql) (CHR '';'') = count sql (CHR '';'')"
    by (simp add: count_strip semicolon_not_space)
  with error_strip_nonempty [OF assms]
  have "no_dangerous_word sql \<and> count sql (CHR '';'') \<le> 1 \<longrightarrow>
      execute_manual_query sql = Forwarded (strip sql)"
    by (simp add: execute_manual_query_scan_clean)
  with validate_sql_error [OF assms] show ?thesis by simp
qed

theorem sentinel_passed_through_witness:
  "startswith (upper ''Error: Cannot generate a valid SELECT query'') (latin1 ''ERROR:'')
   \<and> validate_sql ''Error: Cannot generate a valid SELECT query''
       = (False, ''Error: Cannot generate a valid SELECT query'')
   \<and> execute_manual_query ''Error: Cannot generate a valid SELECT query''
       = Forwarded (strip ''Error: Cannot generate a valid SELECT query'')"
proof -
  have sentinel: "startswith (upper ''Error: Cannot generate a valid SELECT query'') (latin1 ''ERROR:'')"
    by code_simp
  have manual: "no_dangerous_word ''Error: Cannot generate a valid SELECT query''
      \<and> count ''Error: Cannot generate a valid SELECT query'' (CHR '';'') \<le> 1"
    by code_simp
  from sentinel_passed_through [OF sentinel] sentinel manual show ?thesis
    by blast
qed

theorem sentinel_any_policy_counterexample:
  "startswith (upper ''ERROR: Cannot generate a valid SELECT query'') (latin1 ''ERROR:'')
   \<and> execute_manual_query ''ERROR: Cannot generate a valid SELECT query''
       = Forwarded ''ERROR: Cannot generate a valid SELECT query''"
  by code_simp

text \<open>
  C10. The strict validator does not ask for the semicolon to come last: a candidate
  that begins (trimmed, in any letter case) with SELECT, with at most one semicolon
  wherever it stands, no denylisted keyword as a whole word and no comment marker, is
  Valid.
\<close>

theorem terminator_need_not_be_last:
  assumes "startswith (strip_u (upper sql)) (latin1 ''SELECT'')"
    and "count sql (CHR '';'') \<le> 1"
    and "no_forbidden_word sql"
    and "\<not> has_comment_marker sql"
  shows "validate_sql sql = (True, ''SQL query is valid'')"
  using assms by (simp add: validate_sql_scan_clean)

theorem terminator_need_not_be_last_witness:
  "count ''select a from t; and more'' (CHR '';'') = 1
   \<and> \<not> endswith ''select a from t; and more'' '';''
   \<and> validate_sql ''select a from t; and more'' = (True, ''SQL query is valid'')"
proof -
  have first: "startswith (strip_u (upper ''select a from t; and more'')) (latin1 ''SELECT'')"
    by code_simp
  have one: "count ''select a from t; and more'' (CHR '';'') = 1"
    by code_simp
  have scan: "no_forbidden_word ''select a from t; and more''"
    by code_simp
  have plain: "\<not> has_comment_marker ''select a from t; and more''"
    by code_simp
  have inner: "\<not> endswith ''select a from t; and more'' '';''"
    by code_simp
  from one have "count ''select a from t; and more'' (CHR '';'') \<le> 1"
    by simp
  from terminator_need_not_be_last [OF first this scan plain] one inner show ?thesis
    by simp
qed


section \<open>The matcher on literal text\<close>

lemma ignorecase_append: "ignorecase (a @ b) = ignorecase a @ ignorecase b"
  by (simp add: ignorecase_def)

lemma startswith_ignorecase_Cons:
  "startswith (ignorecase (c # cs)) (ignorecase (a # w)) \<longleftrightarrow>
     ignorecase_char c = ignorecase_char a \<and> startswith (ignorecase cs) (ignorecase w)"
  by (auto simp add: startswith_def ignorecase_def)

lemma rx_match_lits:
  "rx_match (lits w @ its) prev s =
     (if startswith s w
      then rx_match its (if w = [] then prev else Some (last w)) (drop (length w) s)
      else None)"
proof (induction w arbitrary: prev s)
  case Nil
  then show ?case by (simp add: lits_def startswith_Nil)
next
  case (Cons a w)
  show ?case
  proof (cases s)
    case Nil
    then show ?thesis by (simp add: lits_def lit_def startswith_def)
  next
    case (Cons c cs)
    have step: "rx_match (lits (a # w) @ its) prev (c # cs) =
        (if c = a then rx_match (lits w @ its) (Some c) cs else None)"
      by (simp add: lits_def lit_def)
    show ?thesis
      unfolding Cons step Cons.IH
      by (auto simp add: startswith_def)
  qed
qed

lemma rx_match_lits_ci:
  "rx_match (lits_ci w @ its) prev s =
     (if startswith (ignorecase s) (ignorecase w)
      then rx_match its (if w = [] then prev else Some (last (take (length w) s)))
             (drop (length w) s)
      else None)"
proof (induction w arbitrary: prev s)
  case Nil
  then show ?case by (simp add: lits_ci_def startswith_Nil ignorecase_def)
next
  case (Cons a w)
  show ?case
  proof (cases s)
    case Nil
    then show ?thesis by (simp add: lits_ci_def lit_ci_def startswith_def ignorecase_def)
  next
    case (Cons c cs)
    have step: "rx_match (lits_ci (a # w) @ its) prev (c # cs) =
        (if ignorecase_char c = ignorecase_char a then rx_match (lits_ci w @ its) (Some c) cs else None)"
      by (simp add: lits_ci_def lit_ci_def)
    have len: "startswith (ignorecase cs) (ignorecase w) \<Longrightarrow> w \<noteq> [] \<Longrightarrow> cs \<noteq> []"
      by (auto simp add: startswith_def ignorecase_def)
    show ?thesis
      unfolding Cons step Cons.IH startswith_ignorecase_Cons
      using len by (cases w) auto
  qed
qed

section \<open>Substitution where nothing matches\<close>

lemma rx_sub_no_match:
  assumes "\<And>u t prev'. s = u @ t \<Longrightarrow> rx_match its prev' t = None"
  shows "rx_sub its prev s = s"
  using assms
proof (induction s arbitrary: prev)
  case Nil
  then show ?case by simp
next
  case (Cons c cs)
  have here: "rx_match its prev (c # cs) = None"
    using Cons.prems [of "[]" "c # cs" prev] by simp
  have rest: "rx_sub its (Some c) cs = cs"
  proof (rule Cons.IH)
    fix u t prev'
    assume "cs = u @ t"
    then have "c # cs = (c # u) @ t" by simp
    then show "rx_match its prev' t = None" by (rule Cons.prems)
  qed
  from here rest show ?case by simp
qed

lemma contains_startswith_suffix:
  "startswith t sub \<Longrightarrow> contains (u @ t) sub"
proof (induction u)
  case Nil
  then show ?case by (cases t) (auto simp add: startswith_def)
next
  case (Cons a u)
  then show ?case by simp
qed

lemma rx_sub_lits_ci_absent:
  assumes "\<not> contains (ignorecase s) (ignorecase w)"
  shows "rx_sub (lits_ci w @ its) prev s = s"
proof (rule rx_sub_no_match)
  fix u t prev'
  assume "s = u @ t"
  with assms have "\<not> startswith (ignorecase t) (ignorecase w)"
    using contains_startswith_suffix [of "ignorecase t" "ignorecase w" "ignorecase u"]
    by (auto simp add: ignorecase_append)
  then show "rx_match (lits_ci w @ its) prev' t = None"
    by (simp add: rx_match_lits_ci)
qed

lemma rx_sub_lits_absent:
  assumes "\<not> contains s w"
  shows "rx_sub (lits w @ its) prev s = s"
proof (rule rx_sub_no_match)
  fix u t prev'
  assume "s = u @ t"
  with assms have "\<not> startswith t w"
    using contains_startswith_suffix [of t w u] by auto
  then show "rx_match (lits w @ its) prev' t = None"
    by (simp add: rx_match_lits)
qed

section \<open>Text without fences and prefixes\<close>

lemma contains_ignorecase_literal:
  assumes "\<And>c x. c \<in> set w \<Longrightarrow> ignorecase_char x = c \<Longrightarrow> x = c"
  shows "contains (ignorecase s) w \<Longrightarrow> contains s w"
proof (induction s)
  case Nil
  then show ?case by (simp add: ignorecase_def)
next
  case (Cons a s)
  from Cons.prems have "startswith (ignorecase (a # s)) w \<or> contains (ignorecase s) w"
    by (simp add: ignorecase_def)
  then show ?case
  proof
    assume "startswith (ignorecase (a # s)) w"
    then have "take (length w) (map ignorecase_char (a # s)) = w"
      by (simp add: startswith_def ignorecase_def)
    then have eq: "map ignorecase_char (take (length w) (a # s)) = w"
      by (simp only: take_map)
    have "take (length w) (a # s) = w"
    proof (rule nth_equalityI)
      from eq show len: "length (take (length w) (a # s)) = length w"
        by (metis length_map)
      fix i assume i: "i < length (take (length w) (a # s))"
      with eq have "ignorecase_char (take (length w) (a # s) ! i) = w ! i"
        by (metis nth_map)
      moreover from i len have "w ! i \<in> set w" by simp
      ultimately show "take (length w) (a # s) ! i = w ! i"
        using assms by blast
    qed
    then show ?thesis by (simp add: startswith_def)
  next
    assume "contains (ignorecase s) w"
    with Cons.IH show ?thesis by simp
  qed
qed

lemma backtick_only_ignorecase: "ignorecase_char x = CHR ''`'' \<Longrightarrow> x = CHR ''`''"
  by (cases x) (auto simp add: ignorecase_char_Char split: if_splits)

lemma contains_prefix_of_pattern:
  "contains s (a @ b) \<Longrightarrow> contains s a"
proof (induction s)
  case Nil
  then show ?case by simp
next
  case (Cons c s)
  from Cons.prems have "startswith (c # s) (a @ b) \<or> contains s (a @ b)" by simp
  then show ?case
  proof
    assume "startswith (c # s) (a @ b)"
    then have "take (length a + length b) (c # s) = a @ b"
      by (simp add: startswith_def)
    then have "take (length a) (take (length a + length b) (c # s)) = a"
      by simp
    then have "take (length a) (c # s) = a"
      by (simp add: min_def)
    then show ?thesis by (simp add: startswith_def)
  next
    assume "contains s (a @ b)"
    with Cons.IH show ?thesis by simp
  qed
qed

lemma no_fence_ignorecase:
  assumes "\<not> has_fence s"
  shows "\<not> contains (ignorecase s) (''```'' @ rest)"
proof
  assume "contains (ignorecase s) (''```'' @ rest)"
  then have "contains (ignorecase s) ''```''" by (rule contains_prefix_of_pattern)
  then have "contains s ''```''"
    by (rule contains_ignorecase_literal [rotated]) (auto dest: backtick_only_ignorecase)
  with assms show False by (simp add: has_fence_def)
qed

lemma remove_fences_absent:
  assumes "\<not> has_fence s"
  shows "remove_fences s = s"
proof -
  have sql: "rx_sub fence_sql None s = s"
    using no_fence_ignorecase [OF assms, of "ignorecase ''sql''"]
    by (simp add: fence_sql_def rx_sub_lits_ci_absent ignorecase_def ignorecase_char_Char)
  have mysql: "rx_sub fence_mysql None s = s"
    using no_fence_ignorecase [OF assms, of "ignorecase ''mysql''"]
    by (simp add: fence_mysql_def rx_sub_lits_ci_absent ignorecase_def ignorecase_char_Char)
  have bare: "rx_sub fence_bare None s = s"
    using assms by (simp add: fence_bare_def rx_sub_lits_absent has_fence_def)
  show ?thesis by (simp add: remove_fences_def sql mysql bare)
qed

lemma rx_sub_prefix_absent:
  assumes "\<not> contains (ignorecase s) (ignorecase prefix)"
  shows "rx_sub (lits_ci prefix) None s = s"
  using rx_sub_lits_ci_absent [OF assms, of "[]" None] by simp

lemma remove_prefixes_absent:
  assumes "\<not> has_prefix s"
  shows "remove_prefixes s = s"
proof -
  have "foldl (\<lambda>t prefix. rx_sub (lits_ci prefix) None t) s ps = s"
    if "\<forall>prefix \<in> set ps. \<not> contains (ignorecase s) (ignorecase prefix)" for ps
    using that by (induction ps) (simp_all add: rx_sub_prefix_absent)
  with assms show ?thesis
    by (simp add: remove_prefixes_def has_prefix_def)
qed

lemma blank_no_contains:
  assumes "blank s" and "\<not> is_space c"
  shows "\<not> contains s (c # w)"
proof
  assume "contains s (c # w)"
  then have "c \<in> set s" using contains_set by fastforce
  with assms show False by (auto simp add: blank_def)
qed

lemma blank_ignorecase: "blank (ignorecase s) = blank s"
  by (simp add: blank_def ignorecase_def is_space_ignorecase_char)

lemma blank_no_fence: "blank s \<Longrightarrow> \<not> has_fence s"
  using blank_no_contains [of s "CHR ''`''" "''``''"]
  by (simp add: has_fence_def is_space_Char)

lemma blank_no_prefix:
  assumes "blank s"
  shows "\<not> has_prefix s"
proof -
  have "\<not> contains (ignorecase s) (ignorecase prefix)"
    if "prefix \<noteq> []" and "\<not> is_space (hd prefix)" for prefix
  proof -
    from that obtain c w where "prefix = c # w" and "\<not> is_space c"
      by (cases prefix) auto
    then have "ignorecase prefix = ignorecase_char c # ignorecase w" and "\<not> is_space (ignorecase_char c)"
      by (simp_all add: ignorecase_def is_space_ignorecase_char)
    with assms show ?thesis
      using blank_no_contains [of "ignorecase s" "ignorecase_char c" "ignorecase w"]
      by (simp add: blank_ignorecase)
  qed
  then show ?thesis
    by (simp add: has_prefix_def prefixes_to_remove_def is_space_Char)
qed

lemma extract_select_Nil: "extract_select [] = []"
  by (simp add: extract_select_def split: option.split)

lemma clean_blank_Nil:
  assumes "blank s"
  shows "clean_sql_response s = []"
proof -
  from assms have "strip s = []" by (simp add: strip_Nil_iff blank_def)
  with assms show ?thesis
    by (simp add: clean_sql_response_def remove_fences_absent blank_no_fence
        remove_prefixes_absent blank_no_prefix extract_select_Nil ensure_semicolon_def)
qed

text \<open>
  C9. The sanitizer maps the empty string, and every text of whitespace only, to the
  empty string (no semicolon is appended to an empty candidate), and the validator
  answers the empty candidate with Invalid and the empty-query reason.
\<close>

theorem clean_blank_then_invalid:
  assumes "blank raw"
  shows "clean_sql_response raw = []
    \<and> ensure_semicolon [] = []
    \<and> validate_sql (clean_sql_response raw) = (False, ''Empty SQL query'')"
  using clean_blank_Nil [OF assms] by (simp add: ensure_semicolon_def validate_sql_def)

theorem clean_blank_then_invalid_witness:
  "blank [] \<and> clean_sql_response [] = []
   \<and> blank [CHR '' '', CHR 0x0A, CHR 0x09, CHR 0xA0, CHR 0x85]
   \<and> clean_sql_response [CHR '' '', CHR 0x0A, CHR 0x09, CHR 0xA0, CHR 0x85] = []
   \<and> validate_sql (clean_sql_response [CHR '' '', CHR 0x0A, CHR 0x09, CHR 0xA0, CHR 0x85])
       = (False, ''Empty SQL query'')"
proof -
  have empty: "blank []"
    by (simp add: blank_def)
  have spaces: "blank [CHR '' '', CHR 0x0A, CHR 0x09, CHR 0xA0, CHR 0x85]"
    by code_simp
  from clean_blank_then_invalid [OF empty] clean_blank_then_invalid [OF spaces] empty spaces
  show ?thesis by blast
qed

section \<open>The orchestrator\<close>

lemma blank_iff_strip: "blank s \<longleftrightarrow> s = [] \<or> strip s = []"
  by (auto simp add: blank_def strip_Nil_iff)

text \<open>
  C8. On a blank prompt the orchestrator answers at once with a rejection and leaves
  the outside world as it found it, whatever the provider calls would do: no provider
  is called. Otherwise it calls the provider once; on a provider error it returns the
  failure with the provider's detail and an empty statement, and nothing of the
  sanitizer or validator enters the result; on success it cleans the text and
  validates the cleaned statement, answering with success and the cleaned statement
  exactly when the validator accepts it, and else with the cleaned statement and the
  validator's reason.
\<close>

theorem generate_sql_sequencing:
  "(blank prompt \<longrightarrow>
      generate_sql self prompt schema_context w = ((False, [], ''Empty prompt provided''), w))
   \<and> (\<not> blank prompt \<and> call_provider self prompt schema_context w = ((False, detail), w') \<longrightarrow>
      generate_sql self prompt schema_context w = ((False, [], detail), w'))
   \<and> (\<not> blank prompt \<and> call_provider self prompt schema_context w = ((True, raw), w') \<longrightarrow>
      generate_sql self prompt schema_context w =
        (if fst (validate_sql (clean_sql_response raw))
         then ((True, clean_sql_response raw, ''SQL generated and validated successfully''), w')
         else ((False, clean_sql_response raw, snd (validate_sql (clean_sql_response raw))), w')))"
  by (auto simp add: generate_sql_def blank_iff_strip Let_def split: prod.split)

theorem generate_sql_sequencing_witness:
  "generate_sql (counting_service (True, ''SELECT 1;'')) [CHR '' '', CHR 0xA0] ''Table: t'' 0
     = ((False, [], ''Empty prompt provided''), 0)
   \<and> generate_sql (counting_service (False, ''Gemini API request timed out'')) ''all rows'' ''Table: t'' 0
     = ((False, [], ''Gemini API request timed out''), 1)
   \<and> generate_sql (counting_service (True, ''```sql SELECT * FROM t```'')) ''all rows'' ''Table: t'' 0
     = ((True, ''SELECT * FROM t;'', ''SQL generated and validated successfully''), 1)
   \<and> generate_sql (counting_service (True, ''DROP TABLE t'')) ''all rows'' ''Table: t'' 0
     = ((False, ''DROP TABLE t;'', ''Only SELECT queries are allowed''), 1)"
proof -
  have blank: "blank [CHR '' '', CHR 0xA0]"
    by code_simp
  have asked: "\<not> blank ''all rows''"
    by code_simp
  have failed: "call_provider (counting_service (False, ''Gemini API request timed out''))
      ''all rows'' ''Table: t'' 0 = ((False, ''Gemini API request timed out''), 1)"
    by (simp add: call_provider_def counting_service_def)
  have fenced: "call_provider (counting_service (True, ''```sql SELECT * FROM t```''))
      ''all rows'' ''Table: t'' 0 = ((True, ''```sql SELECT * FROM t```''), 1)"
    by (simp add: call_provider_def counting_service_def)
  have drop: "call_provider (counting_service (True, ''DROP TABLE t''))
      ''all rows'' ''Table: t'' 0 = ((True, ''DROP TABLE t''), 1)"
    by (simp add: call_provider_def counting_service_def)
  have clean_fenced: "clean_sql_response ''```sql SELECT * FROM t```'' = ''SELECT * FROM t;''"
    by code_simp
  have valid_fenced: "validate_sql ''SELECT * FROM t;'' = (True, ''SQL query is valid'')"
    by code_simp
  have clean_drop: "clean_sql_response ''DROP TABLE t'' = ''DROP TABLE t;''"
    by code_simp
  have invalid_drop: "validate_sql ''DROP TABLE t;'' = (False, ''Only SELECT queries are allowed'')"
    by code_simp
  from blank generate_sql_sequencing
    [of "[CHR '' '', CHR 0xA0]" "counting_service (True, ''SELECT 1;'')" "''Table: t''" 0]
  have first: "generate_sql (counting_service (True, ''SELECT 1;'')) [CHR '' '', CHR 0xA0] ''Table: t'' 0
      = ((False, [], ''Empty prompt provided''), 0)"
    by blast
  from asked failed generate_sql_sequencing
    [of "''all rows''" "counting_service (False, ''Gemini API request timed out'')"
        "''Table: t''" 0 "''Gemini API request timed out''" 1]
  have second: "generate_sql (counting_service (False, ''Gemini API request timed out''))
      ''all rows'' ''Table: t'' 0 = ((False, [], ''Gemini API request timed out''), 1)"
    by blast
  from asked fenced generate_sql_sequencing
    [of "''all rows''" "counting_service (True, ''```sql SELECT * FROM t```'')"
        "''Table: t''" 0 _ 1 "''```sql SELECT * FROM t```''"]
  have third: "generate_sql (counting_service (True, ''```sql SELECT * FROM t```''))
      ''all rows'' ''Table: t'' 0
      = ((True, ''SELECT * FROM t;'', ''SQL generated and validated successfully''), 1)"
    by (simp add: clean_fenced valid_fenced)
  from asked drop generate_sql_sequencing
    [of "''all rows''" "counting_service (True, ''DROP TABLE t'')"
        "''Table: t''" 0 _ 1 "''DROP TABLE t''"]
  have fourth: "generate_sql (counting_service (True, ''DROP TABLE t''))
      ''all rows'' ''Table: t'' 0
      = ((False, ''DROP TABLE t;'', ''Only SELECT queries are allowed''), 1)"
    by (simp add: clean_drop invalid_drop)
  from first second third fourth show ?thesis by blast
qed

section \<open>Patterns without \<open>\b\<close>\<close>

lemma rx_match_prev_irrelevant:
  "no_bnd its \<Longrightarrow> rx_match its prev s = rx_match its None s"
  by (induction its prev s rule: rx_match.induct) (simp_all split: option.splits)

lemma rx_match_extend:
  "no_bnd its \<Longrightarrow> rx_match its prev s \<noteq> None \<Longrightarrow> rx_match its prev (s @ t) \<noteq> None"
proof (induction its prev s rule: rx_match.induct)
  case (9 p its prev)
  then have rest: "rx_match its prev t \<noteq> None" by simp
  then show ?case by (cases t) (auto split: option.splits)
next
  case (11 p its prev)
  then have rest: "rx_match its prev t \<noteq> None" by simp
  then show ?case by (cases t) (auto split: option.splits)
qed (auto split: option.splits if_splits)

lemma rx_match_self:
  "no_bnd its \<Longrightarrow> rx_match its prev s = Some r \<Longrightarrow>
     \<exists>m. s = m @ r \<and> rx_match its prev m = Some []"
proof (induction its prev s arbitrary: r rule: rx_match.induct)
  case (10 p its prev c cs)
  have free: "no_bnd (Atom p StarG # its)" "no_bnd its"
    using "10.prems"(1) by simp_all
  show ?case
  proof (cases "p c \<and> rx_match (Atom p StarG # its) (Some c) cs \<noteq> None")
    case True
    with "10.prems"(2) have "rx_match (Atom p StarG # its) (Some c) cs = Some r"
      by auto
    with "10.IH"(1) True free obtain m
      where "cs = m @ r" and "rx_match (Atom p StarG # its) (Some c) m = Some []"
      by blast
    with True have "c # cs = (c # m) @ r \<and> rx_match (Atom p StarG # its) prev (c # m) = Some []"
      by simp
    then show ?thesis by blast
  next
    case False
    with "10.prems"(2) have skip: "rx_match its prev (c # cs) = Some r"
      by (auto split: if_splits option.splits)
    have "\<exists>m. c # cs = m @ r \<and> rx_match its prev m = Some []"
    proof (cases "p c")
      case True
      with False have "rx_match (Atom p StarG # its) (Some c) cs = None" by simp
      with True "10.IH"(2) [OF _ _ free(2) skip] show ?thesis by simp
    next
      case no: False
      with "10.IH"(3) [OF _ free(2) skip] show ?thesis by simp
    qed
    then obtain m where m: "c # cs = m @ r" and here: "rx_match its prev m = Some []"
      by blast
    have "rx_match (Atom p StarG # its) prev m = Some []"
    proof (cases m)
      case Nil
      with here show ?thesis by simp
    next
      case (Cons d m')
      with m have d: "d = c" and cs: "cs = m' @ r" by simp_all
      have "rx_match (Atom p StarG # its) (Some c) m' = None" if "p c"
      proof (rule ccontr)
        assume "rx_match (Atom p StarG # its) (Some c) m' \<noteq> None"
        then have "rx_match (Atom p StarG # its) (Some c) (m' @ r) \<noteq> None"
          using free(1) by (rule rx_match_extend [rotated])
        with False that cs show False by simp
      qed
      with here Cons d show ?thesis by simp
    qed
    with m show ?thesis by blast
  qed
next
  case (12 p its prev c cs)
  have free: "no_bnd (Atom p StarL # its)" "no_bnd its"
    using "12.prems"(1) by simp_all
  show ?case
  proof (cases "rx_match its prev (c # cs)")
    case (Some r')
    with "12.prems"(2) have "rx_match its prev (c # cs) = Some r" by simp
    with "12.IH"(1) free obtain m where m: "c # cs = m @ r" and here: "rx_match its prev m = Some []"
      by blast
    then have "rx_match (Atom p StarL # its) prev m = Some []"
      by (cases m) simp_all
    with m show ?thesis by blast
  next
    case None
    with "12.prems"(2) have pc: "p c" and more: "rx_match (Atom p StarL # its) (Some c) cs = Some r"
      by (auto split: if_splits)
    with "12.IH"(2) [OF None pc free(1)] obtain m
      where cs: "cs = m @ r" and inner: "rx_match (Atom p StarL # its) (Some c) m = Some []"
      by blast
    have "rx_match its prev (c # m) = None"
    proof (rule ccontr)
      assume "rx_match its prev (c # m) \<noteq> None"
      then have "rx_match its prev ((c # m) @ r) \<noteq> None"
        using free(2) by (rule rx_match_extend [rotated])
      with None cs show False by simp
    qed
    with pc inner have "rx_match (Atom p StarL # its) prev (c # m) = Some []" by simp
    with cs show ?thesis by (intro exI [of _ "c # m"]) simp
  qed
next
  case (4 p its prev c cs)
  then have pc: "p c" and "rx_match its (Some c) cs = Some r"
    by (auto split: if_splits)
  with "4.IH" "4.prems"(1) obtain m where "cs = m @ r" and "rx_match its (Some c) m = Some []"
    by auto
  with pc show ?case by (intro exI [of _ "c # m"]) simp
next
  case (6 p its prev c cs)
  then have pc: "p c" and "rx_match (Atom p StarG # its) (Some c) cs = Some r"
    by (auto split: if_splits)
  with "6.IH" "6.prems"(1) obtain m
    where "cs = m @ r" and "rx_match (Atom p StarG # its) (Some c) m = Some []"
    by auto
  with pc show ?case by (intro exI [of _ "c # m"]) simp
next
  case (8 p its prev c cs)
  then have pc: "p c" and "rx_match (Atom p StarL # its) (Some c) cs = Some r"
    by (auto split: if_splits)
  with "8.IH" "8.prems"(1) obtain m
    where "cs = m @ r" and "rx_match (Atom p StarL # its) (Some c) m = Some []"
    by auto
  with pc show ?case by (intro exI [of _ "c # m"]) simp
qed auto

lemma rx_match_last_atom_aux:
  "rx_match its' prev s = Some r \<Longrightarrow> its' = its @ [Atom q Once] \<Longrightarrow>
     \<exists>m c. s = m @ c # r \<and> q c"
proof (induction its' prev s arbitrary: its r rule: rx_match.induct)
  case (2 wd its0 prev s)
  from "2.prems"(2) obtain its1 where "its0 = its1 @ [Atom q Once]"
    by (cases its) auto
  with "2.IH" "2.prems"(1) show ?case by (auto split: if_splits)
next
  case (4 p its0 prev c cs)
  from "4.prems"(1) have pc: "p c" and rest: "rx_match its0 (Some c) cs = Some r"
    by (auto split: if_splits)
  show ?case
  proof (cases its)
    case Nil
    with "4.prems"(2) have "its0 = []" and "p = q" by simp_all
    with pc rest show ?thesis by (intro exI [of _ "[]"] exI [of _ c]) simp
  next
    case (Cons a its1)
    with "4.prems"(2) have "its0 = its1 @ [Atom q Once]" by simp
    from "4.IH" [OF pc rest this] obtain m d where "cs = m @ d # r" and "q d"
      by blast
    then show ?thesis by (intro exI [of _ "c # m"] exI [of _ d]) simp
  qed
next
  case (6 p its0 prev c cs)
  from "6.prems"(1) have pc: "p c" and rest: "rx_match (Atom p StarG # its0) (Some c) cs = Some r"
    by (auto split: if_splits)
  from "6.prems"(2) obtain its1 where "its0 = its1 @ [Atom q Once]"
    by (cases its) auto
  then have "Atom p StarG # its0 = (Atom p StarG # its1) @ [Atom q Once]" by simp
  from "6.IH" [OF pc rest this] obtain m d where "cs = m @ d # r" and "q d"
    by blast
  then show ?case by (intro exI [of _ "c # m"] exI [of _ d]) simp
next
  case (8 p its0 prev c cs)
  from "8.prems"(1) have pc: "p c" and rest: "rx_match (Atom p StarL # its0) (Some c) cs = Some r"
    by (auto split: if_splits)
  from "8.prems"(2) obtain its1 where "its0 = its1 @ [Atom q Once]"
    by (cases its) auto
  then have "Atom p StarL # its0 = (Atom p StarL # its1) @ [Atom q Once]" by simp
  from "8.IH" [OF pc rest this] obtain m d where "cs = m @ d # r" and "q d"
    by blast
  then show ?case by (intro exI [of _ "c # m"] exI [of _ d]) simp
next
  case (9 p its0 prev)
  from "9.prems"(2) obtain its1 where its0: "its0 = its1 @ [Atom q Once]"
    by (cases its) auto
  from "9.prems"(1) have "rx_match its0 prev [] = Some r" by simp
  from "9.IH" [OF this its0] show ?case .
next
  case (10 p its0 prev c cs)
  from "10.prems"(2) obtain its1 where its0: "its0 = its1 @ [Atom q Once]"
    by (cases its) auto
  then have star: "Atom p StarG # its0 = (Atom p StarG # its1) @ [Atom q Once]" by simp
  show ?case
  proof (cases "p c \<and> rx_match (Atom p StarG # its0) (Some c) cs \<noteq> None")
    case True
    with "10.prems"(1) have "rx_match (Atom p StarG # its0) (Some c) cs = Some r"
      by auto
    with "10.IH"(1) True star obtain m d where "cs = m @ d # r" and "q d"
      by blast
    then show ?thesis by (intro exI [of _ "c # m"] exI [of _ d]) simp
  next
    case False
    with "10.prems"(1) have skip: "rx_match its0 prev (c # cs) = Some r"
      by (auto split: if_splits option.splits)
    show ?thesis
    proof (cases "p c")
      case True
      with False have "rx_match (Atom p StarG # its0) (Some c) cs = None" by simp
      from "10.IH"(2) [OF True this skip its0] show ?thesis .
    next
      case no: False
      from "10.IH"(3) [OF no skip its0] show ?thesis .
    qed
  qed
next
  case (11 p its0 prev)
  from "11.prems"(2) obtain its1 where its0: "its0 = its1 @ [Atom q Once]"
    by (cases its) auto
  from "11.prems"(1) have "rx_match its0 prev [] = Some r" by simp
  from "11.IH" [OF this its0] show ?case .
next
  case (12 p its0 prev c cs)
  from "12.prems"(2) obtain its1 where its0: "its0 = its1 @ [Atom q Once]"
    by (cases its) auto
  then have star: "Atom p StarL # its0 = (Atom p StarL # its1) @ [Atom q Once]" by simp
  show ?case
  proof (cases "rx_match its0 prev (c # cs)")
    case (Some r')
    with "12.prems"(1) have "rx_match its0 prev (c # cs) = Some r" by simp
    from "12.IH"(1) [OF this its0] show ?thesis .
  next
    case None
    with "12.prems"(1) have pc: "p c"
      and more: "rx_match (Atom p StarL # its0) (Some c) cs = Some r"
      by (auto split: if_splits)
    from "12.IH"(2) [OF None pc more star] obtain m d where "cs = m @ d # r" and "q d"
      by blast
    then show ?thesis by (intro exI [of _ "c # m"] exI [of _ d]) simp
  qed
next
  case (3 p its0 prev)
  from "3.prems"(1) show ?case by simp
next
  case (5 p its0 prev)
  from "5.prems"(1) show ?case by simp
next
  case (7 p its0 prev)
  from "7.prems"(1) show ?case by simp
qed simp

lemma rx_match_last_atom:
  "rx_match (its @ [Atom q Once]) prev s = Some r \<Longrightarrow> \<exists>m c. s = m @ c # r \<and> q c"
  by (rule rx_match_last_atom_aux [OF _ refl])

section \<open>Search\<close>

lemma rx_search_Some:
  "rx_search its prev s = Some m \<Longrightarrow>
     \<exists>u t r prev'. s = u @ t \<and> rx_match its prev' t = Some r \<and> m = take (length t - length r) t"
proof (induction s arbitrary: prev)
  case Nil
  then show ?case by (auto split: option.splits)
next
  case (Cons c cs)
  show ?case
  proof (cases "rx_match its prev (c # cs)")
    case (Some r)
    with Cons.prems have "m = take (length (c # cs) - length r) (c # cs)" by simp
    with Some show ?thesis by (intro exI [of _ "[]"] exI [of _ "c # cs"] exI [of _ r] exI [of _ prev]) simp
  next
    case None
    with Cons.prems have "rx_search its (Some c) cs = Some m" by simp
    from Cons.IH [OF this] obtain u t r prev'
      where "cs = u @ t" and "rx_match its prev' t = Some r" and "m = take (length t - length r) t"
      by blast
    then show ?thesis by (intro exI [of _ "c # u"] exI [of _ t] exI [of _ r] exI [of _ prev']) simp
  qed
qed

lemma rx_search_matches_itself:
  assumes free: "no_bnd its" and found: "rx_search its prev s = Some m"
  shows "rx_match its None m = Some []"
proof -
  from rx_search_Some [OF found] obtain u t r prev'
    where "s = u @ t" and t: "rx_match its prev' t = Some r"
      and m: "m = take (length t - length r) t"
    by blast
  from rx_match_self [OF free t] obtain m'
    where "t = m' @ r" and "rx_match its prev' m' = Some []"
    by blast
  with m have "rx_match its prev' m = Some []" by simp
  with free show ?thesis by (simp add: rx_match_prev_irrelevant [of its prev'])
qed

lemma rx_search_at_start:
  assumes "rx_match its prev m = Some []" and "m \<noteq> []"
  shows "rx_search its prev m = Some m"
  using assms by (cases m) simp_all

section \<open>The shape of what the sanitizer returns\<close>

lemma last_dropWhile:
  "dropWhile P xs \<noteq> [] \<Longrightarrow> last (dropWhile P xs) = last xs"
  by (induction xs) (auto split: if_splits)

lemma strip_ends:
  assumes "strip s \<noteq> []"
  shows "\<not> is_space (hd (strip s)) \<and> \<not> is_space (last (strip s))"
proof -
  define e where "e = dropWhile is_space s"
  define d where "d = dropWhile is_space (rev e)"
  have strip: "strip s = rev d" by (simp add: strip_def strip_with_def d_def e_def)
  with assms have d: "d \<noteq> []" by simp
  then have e: "e \<noteq> []" by (auto simp add: d_def)
  from d have "\<not> is_space (hd d)" unfolding d_def by (rule hd_dropWhile)
  moreover from d have "last d = last (rev e)" unfolding d_def by (rule last_dropWhile)
  with e have "last d = hd e" by (simp add: last_rev)
  moreover from e have "\<not> is_space (hd e)" unfolding e_def by (rule hd_dropWhile)
  ultimately show ?thesis using d by (simp add: strip hd_rev last_rev)
qed

lemma strip_id:
  assumes "s \<noteq> []" and "\<not> is_space (hd s)" and "\<not> is_space (last s)"
  shows "strip s = s"
proof -
  from assms(1,2) have "dropWhile is_space s = s" by (cases s) simp_all
  moreover from assms(1,3) have "dropWhile is_space (rev s) = rev s"
    by (cases "rev s") (simp_all add: hd_rev [symmetric])
  ultimately show ?thesis by (simp add: strip_def strip_with_def)
qed

lemma endswith_semicolon: "endswith y '';'' \<longleftrightarrow> y \<noteq> [] \<and> last y = CHR '';''"
  by (cases y rule: rev_cases) (auto simp add: endswith_def)

lemma select_pat_free: "no_bnd select_pat"
  by (simp add: select_pat_def lits_ci_def lit_ci_def lit_def)

lemma select_pat_front:
  "select_pat = (lits_ci ''SELECT'' @ [Atom is_space PlusG, Atom (\<lambda>x. True) PlusL])
      @ [Atom (\<lambda>x. x = CHR '';'') Once]"
  by (simp add: select_pat_def lit_def)

lemma select_match_first:
  assumes "rx_match select_pat prev m = Some r"
  shows "startswith (ignorecase m) (ignorecase ''SELECT'')"
proof (rule ccontr)
  assume "\<not> startswith (ignorecase m) (ignorecase ''SELECT'')"
  then have "rx_match (lits_ci ''SELECT'' @
      [Atom is_space PlusG, Atom (\<lambda>x. True) PlusL, lit (CHR '';'')]) prev m = None"
    by (simp only: rx_match_lits_ci if_False)
  with assms show False by (simp only: select_pat_def) simp
qed

lemma select_match_shape:
  assumes "rx_match select_pat prev m = Some []"
  shows "m \<noteq> [] \<and> \<not> is_space (hd m) \<and> endswith m '';''"
proof -
  from assms have "rx_match ((lits_ci ''SELECT'' @ [Atom is_space PlusG, Atom (\<lambda>x. True) PlusL])
      @ [Atom (\<lambda>x. x = CHR '';'') Once]) prev m = Some []"
    by (simp only: select_pat_front)
  from rx_match_last_atom [OF this] obtain m' c where "m = m' @ [c]" and "c = CHR '';''"
    by blast
  then have last: "endswith m '';''" by (simp add: endswith_semicolon)
  from select_match_first [OF assms]
  have "take (length (ignorecase ''SELECT'')) (ignorecase m) = ignorecase ''SELECT''"
    by (simp only: startswith_def)
  then obtain c cs where m: "m = c # cs" and "ignorecase_char c = ignorecase_char (CHR ''S'')"
    by (cases m) (simp_all add: ignorecase_def)
  then have "\<not> is_space (ignorecase_char c)" by (simp add: ignorecase_char_Char is_space_Char)
  then have "\<not> is_space c" by (simp add: is_space_ignorecase_char)
  with m last show ?thesis by simp
qed

lemma extract_select_Some:
  assumes "rx_search select_pat None t = Some m"
  shows "extract_select t = m" and "rx_match select_pat None m = Some []" and "m \<noteq> []"
proof -
  from assms show "extract_select t = m" by (simp add: extract_select_def)
  from select_pat_free assms show self: "rx_match select_pat None m = Some []"
    by (rule rx_search_matches_itself)
  from select_match_shape [OF self] show "m \<noteq> []" by simp
qed

lemma extract_select_again:
  assumes "rx_search select_pat None t = Some m"
  shows "extract_select m = m"
  using extract_select_Some(2,3) [OF assms] by (simp add: extract_select_def rx_search_at_start)

lemma ensure_semicolon_settled: "settled y \<Longrightarrow> ensure_semicolon y = y"
  by (auto simp add: settled_def ensure_semicolon_def)

lemma strip_settled: "settled y \<Longrightarrow> strip y = y"
proof (cases "y = []")
  case True
  then show ?thesis by (simp add: strip_def strip_with_def)
next
  case False
  assume "settled y"
  with False have "\<not> is_space (hd y)" and "last y = CHR '';''"
    by (simp_all add: settled_def endswith_semicolon)
  with False show ?thesis by (simp add: strip_id is_space_Char)
qed

lemma clean_settled: "settled (clean_sql_response raw)"
proof -
  define t where "t = strip (remove_prefixes (remove_fences raw))"
  have clean: "clean_sql_response raw = ensure_semicolon (extract_select t)"
    by (simp add: clean_sql_response_def t_def)
  show ?thesis
  proof (cases "rx_search select_pat None t")
    case (Some m)
    from extract_select_Some(1,2) [OF Some] select_match_shape [of None m]
    have "extract_select t = m" and "settled m" by (simp_all add: settled_def)
    then show ?thesis by (simp add: clean ensure_semicolon_settled)
  next
    case None
    then have same: "extract_select t = t" by (simp add: extract_select_def)
    show ?thesis
    proof (cases "t = []")
      case True
      with same have "extract_select t = []" by simp
      then show ?thesis by (simp add: clean ensure_semicolon_def settled_def)
    next
      case False
      then have "\<not> is_space (hd t)" using strip_ends [of "remove_prefixes (remove_fences raw)"]
        by (simp add: t_def)
      with False show ?thesis
        by (simp add: clean same ensure_semicolon_def settled_def endswith_semicolon)
    qed
  qed
qed

lemma clean_fixed:
  assumes "\<not> has_fence y" and "\<not> has_prefix y" and "settled y" and "extract_select y = y"
  shows "clean_sql_response y = y"
  using assms
  by (simp add: clean_sql_response_def remove_fences_absent remove_prefixes_absent
      strip_settled ensure_semicolon_settled)

lemma clean_extracted:
  assumes "extracted raw"
  shows "extract_select (clean_sql_response raw) = clean_sql_response raw"
proof -
  from assms obtain m
    where found: "rx_search select_pat None (strip (remove_prefixes (remove_fences raw))) = Some m"
    by (auto simp add: extracted_def)
  from extract_select_Some(1,2) [OF found] select_match_shape [of None m]
  have "clean_sql_response raw = m"
    by (simp add: clean_sql_response_def ensure_semicolon_def)
  with extract_select_again [OF found] show ?thesis by simp
qed

text \<open>
  C6, amended. A second pass of the sanitizer changes nothing when the result of the
  first pass holds no fence marker and none of the explanatory prefixes, and the
  first pass extracted a SELECT statement, or its result holds no such statement, or
  the statement found in its result is the whole result.
\<close>

theorem clean_twice:
  assumes "\<not> has_fence (clean_sql_response raw)"
    and "\<not> has_prefix (clean_sql_response raw)"
    and "extracted raw
      \<or> rx_search select_pat None (clean_sql_response raw) = None
      \<or> rx_search select_pat None (clean_sql_response raw) = Some (clean_sql_response raw)"
  shows "clean_sql_response (clean_sql_response raw) = clean_sql_response raw"
proof -
  from assms(3) have "extract_select (clean_sql_response raw) = clean_sql_response raw"
  proof (elim disjE)
    assume "extracted raw"
    then show ?thesis by (rule clean_extracted)
  next
    assume "rx_search select_pat None (clean_sql_response raw) = None"
    then show ?thesis by (simp add: extract_select_def)
  next
    assume "rx_search select_pat None (clean_sql_response raw) = Some (clean_sql_response raw)"
    then show ?thesis by (simp add: extract_select_def)
  qed
  with assms(1,2) clean_settled [of raw] show ?thesis
    by (rule clean_fixed)
qed


theorem clean_twice_witness:
  "clean_sql_response ''Query: select a from t; thanks'' = ''select a from t;''
   \<and> clean_sql_response (clean_sql_response ''Query: select a from t; thanks'')
       = clean_sql_response ''Query: select a from t; thanks''"
proof -
  have once: "clean_sql_response ''Query: select a from t; thanks'' = ''select a from t;''"
    by code_simp
  have plain: "\<not> has_fence ''select a from t;'' \<and> \<not> has_prefix ''select a from t;''"
    by code_simp
  have found: "extracted ''Query: select a from t; thanks''"
    by code_simp
  have "\<not> has_fence (clean_sql_response ''Query: select a from t; thanks'')"
    and "\<not> has_prefix (clean_sql_response ''Query: select a from t; thanks'')"
    unfolding once using plain by blast+
  from clean_twice [OF this] found
  have "clean_sql_response (clean_sql_response ''Query: select a from t; thanks'')
      = clean_sql_response ''Query: select a from t; thanks''"
    by blast
  with once show ?thesis by blast
qed

theorem clean_twice_counterexample:
  "clean_sql_response ''Result: SELECT 1'' = ''Result: SELECT 1;''
   \<and> clean_sql_response ''Result: SELECT 1;'' = ''SELECT 1;''"
  by code_simp

text \<open>
  C7. The explanatory prefixes are deleted in any letter case, but wherever they
  occur: an occurrence inside the statement, after its start, is deleted as well.
  Here the text of a string literal is changed.
\<close>

theorem prefix_removed_inside_statement:
  "remove_prefixes ''SELECT id FROM logs WHERE msg = 'Query: slow';''
     = ''SELECT id FROM logs WHERE msg = ' slow';''
   \<and> clean_sql_response ''SELECT id FROM logs WHERE msg = 'Query: slow';''
     = ''SELECT id FROM logs WHERE msg = ' slow';''
   \<and> clean_sql_response ''QUERY: select 1;'' = ''select 1;''"
  by code_simp


section \<open>The keyword scan\<close>










subsection \<open>Upper-cased text and the text it comes from\<close>









section \<open>Whole words and trimming\<close>









section \<open>What the keyword guards answer\<close>











end
